theory Spec2Isabelle
  imports Main "HOL-Library.AList"
begin

section \<open>Python text\<close>

text \<open>
  A Python \<open>str\<close> is a sequence of Unicode code points; \<open>len\<close>, indexing, the
  regular expressions and \<open>unicodedata\<close> all work on code points. A string is
  modelled as the list of its code points. The character tables of the Python
  run time (\<open>str.isspace\<close>, \<open>str.lower\<close>, the classes of \<open>re\<close>,
  \<open>unicodedata\<close>) are not part of the repository; they are written out below for
  the code points U+0000 to U+00FF and for the code points that the
  decompositions of these reach. The white space and line break tables are
  complete up to U+00FF; a code point without an entry is treated as a character
  without case, without decomposition and outside every class.
\<close>

type_synonym cp = nat
type_synonym str = "cp list"

definition lit :: "string \<Rightarrow> str" where
  "lit s = map of_char s"

abbreviation LF :: cp where "LF \<equiv> 0x0A"
abbreviation CR :: cp where "CR \<equiv> 0x0D"
abbreviation QUOT :: cp where "QUOT \<equiv> 0x22"
abbreviation HASH :: cp where "HASH \<equiv> 0x23"
abbreviation APOS :: cp where "APOS \<equiv> 0x27"
abbreviation LPAR :: cp where "LPAR \<equiv> 0x28"
abbreviation RPAR :: cp where "RPAR \<equiv> 0x29"
abbreviation COMMA :: cp where "COMMA \<equiv> 0x2C"
abbreviation DOT :: cp where "DOT \<equiv> 0x2E"
abbreviation SEMI :: cp where "SEMI \<equiv> 0x3B"
abbreviation LOW_LINE :: cp where "LOW_LINE \<equiv> 0x5F"

definition isspace :: "cp \<Rightarrow> bool" where
  \<comment> \<open>\<open>str.isspace\<close>, also the class \<open>\s\<close> of \<open>re\<close> on \<open>str\<close> patterns\<close>
  "isspace c \<longleftrightarrow>
     (0x09 \<le> c \<and> c \<le> 0x0D) \<or> (0x1C \<le> c \<and> c \<le> 0x20) \<or> c = 0x85 \<or> c = 0xA0"

definition islinebreak :: "cp \<Rightarrow> bool" where
  \<comment> \<open>the line boundaries of \<open>str.splitlines\<close>\<close>
  "islinebreak c \<longleftrightarrow> (0x0A \<le> c \<and> c \<le> 0x0D) \<or> (0x1C \<le> c \<and> c \<le> 0x1E) \<or> c = 0x85"

definition isalnum :: "cp \<Rightarrow> bool" where
  \<comment> \<open>\<open>str.isalnum\<close>: letters, digits and other numeric characters\<close>
  "isalnum c \<longleftrightarrow>
     (0x30 \<le> c \<and> c \<le> 0x39) \<or> (0x41 \<le> c \<and> c \<le> 0x5A) \<or> (0x61 \<le> c \<and> c \<le> 0x7A) \<or>
     c = 0xAA \<or> c = 0xB2 \<or> c = 0xB3 \<or> c = 0xB5 \<or> c = 0xB9 \<or> c = 0xBA \<or>
     (0xBC \<le> c \<and> c \<le> 0xBE) \<or> (0xC0 \<le> c \<and> c \<le> 0xD6) \<or>
     (0xD8 \<le> c \<and> c \<le> 0xF6) \<or> (0xF8 \<le> c \<and> c \<le> 0xFF)"

definition isword :: "cp \<Rightarrow> bool" where
  \<comment> \<open>the class \<open>\w\<close> of \<open>re\<close> on \<open>str\<close> patterns\<close>
  "isword c \<longleftrightarrow> isalnum c \<or> c = LOW_LINE"

definition ascii_letter :: "cp \<Rightarrow> bool" where
  \<comment> \<open>the class \<open>[a-zA-Z]\<close>\<close>
  "ascii_letter c \<longleftrightarrow> (0x41 \<le> c \<and> c \<le> 0x5A) \<or> (0x61 \<le> c \<and> c \<le> 0x7A)"

definition lower_cp :: "cp \<Rightarrow> cp" where
  \<comment> \<open>lower-case mapping of one code point\<close>
  "lower_cp c =
     (if (0x41 \<le> c \<and> c \<le> 0x5A) \<or> (0xC0 \<le> c \<and> c \<le> 0xDE \<and> c \<noteq> 0xD7) then c + 0x20 else c)"

definition lower :: "str \<Rightarrow> str" where
  \<comment> \<open>\<open>str.lower\<close>\<close>
  "lower s = map lower_cp s"

definition upper_cp :: "cp \<Rightarrow> str" where
  \<comment> \<open>upper-case mapping of one code point: sharp s becomes two letters, the
     micro sign and y with diaeresis leave the 8-bit range\<close>
  "upper_cp c =
     (if (0x61 \<le> c \<and> c \<le> 0x7A) \<or> (0xE0 \<le> c \<and> c \<le> 0xFE \<and> c \<noteq> 0xF7) then [c - 0x20]
      else if c = 0xDF then [0x53, 0x53]
      else if c = 0xB5 then [0x39C]
      else if c = 0xFF then [0x178]
      else [c])"

definition upper :: "str \<Rightarrow> str" where
  \<comment> \<open>\<open>str.upper\<close>\<close>
  "upper s = concat (map upper_cp s)"

definition strip :: "str \<Rightarrow> str" where
  \<comment> \<open>\<open>str.strip()\<close>\<close>
  "strip s = rev (dropWhile isspace (rev (dropWhile isspace s)))"

definition rstrip_chars :: "str \<Rightarrow> str \<Rightarrow> str" where
  \<comment> \<open>\<open>s.rstrip(chars)\<close>\<close>
  "rstrip_chars chars s = rev (dropWhile (\<lambda>c. c \<in> set chars) (rev s))"

definition startswith :: "str \<Rightarrow> str \<Rightarrow> bool" where
  "startswith s p \<longleftrightarrow> take (length p) s = p"

fun splitlines_from :: "str \<Rightarrow> str \<Rightarrow> str list" where
  "splitlines_from cur [] = (if cur = [] then [] else [cur])"
| "splitlines_from cur [c] = (if islinebreak c then [cur] else [cur @ [c]])"
| "splitlines_from cur (c # d # ds) =
     (if c = CR \<and> d = LF then cur # splitlines_from [] ds
      else if islinebreak c then cur # splitlines_from [] (d # ds)
      else splitlines_from (cur @ [c]) (d # ds))"

definition splitlines :: "str \<Rightarrow> str list" where
  \<comment> \<open>\<open>str.splitlines()\<close>: CR LF is one boundary, no empty last line\<close>
  "splitlines s = splitlines_from [] s"

section \<open>The SQL parser\<close>

subsection \<open>The table pattern\<close>

text \<open>
  \<open>parse_sql\<close> searches its text with the pattern
  \<^verbatim>\<open>CREATE\s+TABLE\s+((?:\w+\.)?(\w+))\s*\((.*?)\)\s*(?:;|#)\<close>
  under the flags DOTALL and IGNORECASE. The functions below follow the pattern
  from left to right and return the text that is left. Each takes
  the first choice of the backtracking matcher of \<open>re\<close>; no later choice can
  succeed where the first fails:
  a greedy run \<open>\s+\<close>, \<open>\s*\<close> or \<open>\w+\<close> is followed in the pattern by
  a character outside its class, so a shorter run leaves a character of the class
  where the pattern wants another one; and giving up the optional schema
  prefix leaves the dot where the pattern wants white space or the opening
  parenthesis. The lazy \<open>(.*?)\<close> stops at the first closing parenthesis that
  is followed by optional white space and one of \<open>;\<close> and \<open>#\<close>.
\<close>

fun literal_ci :: "str \<Rightarrow> str \<Rightarrow> str option" where
  \<comment> \<open>a literal under IGNORECASE: the characters are compared in lower case\<close>
  "literal_ci [] s = Some s"
| "literal_ci (p # ps) [] = None"
| "literal_ci (p # ps) (c # cs) = (if lower_cp c = lower_cp p then literal_ci ps cs else None)"

definition spaces1 :: "str \<Rightarrow> str option" where
  \<comment> \<open>\<open>\s+\<close>\<close>
  "spaces1 s = (if takeWhile isspace s = [] then None else Some (dropWhile isspace s))"

definition qualified_name :: "str \<Rightarrow> (str \<times> str \<times> str) option" where
  \<comment> \<open>\<open>((?:\w+\.)?(\w+))\<close>: group 1, group 2 and the text left\<close>
  "qualified_name s =
     (let w1 = takeWhile isword s; r1 = dropWhile isword s in
      if w1 = [] then None
      else case r1 of
        [] \<Rightarrow> Some (w1, w1, r1)
      | c # r2 \<Rightarrow>
          (let w2 = takeWhile isword r2 in
           if c = DOT \<and> w2 \<noteq> [] then Some (w1 @ [DOT] @ w2, w2, dropWhile isword r2)
           else Some (w1, w1, r1)))"

definition open_paren :: "str \<Rightarrow> str option" where
  \<comment> \<open>\<open>\s*\(\<close>\<close>
  "open_paren s =
     (case dropWhile isspace s of [] \<Rightarrow> None | c # r \<Rightarrow> if c = LPAR then Some r else None)"

definition close_block :: "str \<Rightarrow> str option" where
  \<comment> \<open>\<open>\)\s*(?:;|#)\<close>\<close>
  "close_block s =
     (case s of
        [] \<Rightarrow> None
      | c # r \<Rightarrow>
          if c = RPAR then
            (case dropWhile isspace r of
               [] \<Rightarrow> None
             | t # r' \<Rightarrow> if t = SEMI \<or> t = HASH then Some r' else None)
          else None)"

fun columns_block :: "str \<Rightarrow> str \<Rightarrow> (str \<times> str) option" where
  \<comment> \<open>\<open>(.*?)\<close> before the closing of the block: group 3, grown one character
     (any character, under DOTALL) at a time, and the text left\<close>
  "columns_block acc [] = None"
| "columns_block acc (c # cs) =
     (case close_block (c # cs) of
        Some rest \<Rightarrow> Some (acc, rest)
      | None \<Rightarrow> columns_block (acc @ [c]) cs)"

definition table_pattern :: "str \<Rightarrow> (str \<times> str \<times> str \<times> str) option" where
  \<comment> \<open>a match of the whole pattern at the head of the text: groups 1, 2, 3 and
     the text after the match\<close>
  "table_pattern s =
     Option.bind (literal_ci (lit ''CREATE'') s) (\<lambda>s1.
     Option.bind (spaces1 s1) (\<lambda>s2.
     Option.bind (literal_ci (lit ''TABLE'') s2) (\<lambda>s3.
     Option.bind (spaces1 s3) (\<lambda>s4.
     Option.bind (qualified_name s4) (\<lambda>(full_table_name, table_name, s5).
     Option.bind (open_paren s5) (\<lambda>s6.
     Option.bind (columns_block [] s6) (\<lambda>(columns_section, rest).
       Some (full_table_name, table_name, columns_section, rest))))))))"

fun finditer_from :: "nat \<Rightarrow> str \<Rightarrow> (str \<times> str \<times> str) list" where
  \<comment> \<open>\<open>table_pattern.finditer\<close>: the matches from left to right, without
     overlap. The first argument counts the characters of the last match that
     are still ahead; the search goes on behind them.\<close>
  "finditer_from k [] = []"
| "finditer_from (Suc k) (c # cs) = finditer_from k cs"
| "finditer_from 0 (c # cs) =
     (case table_pattern (c # cs) of
        None \<Rightarrow> finditer_from 0 cs
      | Some (full_table_name, table_name, columns_section, rest) \<Rightarrow>
          (full_table_name, table_name, columns_section)
            # finditer_from (length cs - length rest) cs)"

definition finditer :: "str \<Rightarrow> (str \<times> str \<times> str) list" where
  "finditer s = finditer_from 0 s"

subsection \<open>Class names\<close>

text \<open>
  Both extractors derive the class name of a table with
  \<^verbatim>\<open>m = re.match(r'^(.*)_[a-zA-Z]$', table_name)\<close> and
  \<^verbatim>\<open>class_name = m.group(1) if m else table_name\<close>.
  Without DOTALL the dot matches every character but the line feed, and
  \<open>$\<close> matches at the end of the text and before a line feed that ends the
  text. The greedy \<open>(.*)\<close> first takes the whole run up to the first line feed
  and gives characters back one at a time until the rest of the pattern matches.
\<close>

definition at_dollar :: "str \<Rightarrow> bool" where
  "at_dollar s \<longleftrightarrow> s = [] \<or> s = [LF]"

definition suffix_here :: "str \<Rightarrow> bool" where
  \<comment> \<open>\<open>_[a-zA-Z]$\<close> at the head of the text\<close>
  "suffix_here s =
     (case s of u # l # r \<Rightarrow> u = LOW_LINE \<and> ascii_letter l \<and> at_dollar r | _ \<Rightarrow> False)"

definition suffix_match :: "str \<Rightarrow> str option" where
  \<comment> \<open>group 1 of the match, or None\<close>
  "suffix_match table_name =
     (let n = length (takeWhile (\<lambda>c. c \<noteq> LF) table_name) in
      case find (\<lambda>k. suffix_here (drop k table_name)) (rev [0..<Suc n]) of
        None \<Rightarrow> None
      | Some k \<Rightarrow> Some (take k table_name))"

definition class_name :: "str \<Rightarrow> str" where
  "class_name table_name =
     (case suffix_match table_name of Some g \<Rightarrow> g | None \<Rightarrow> table_name)"

subsection \<open>Columns\<close>

definition skip_keywords :: "str list" where
  "skip_keywords =
     [lit ''CONSTRAINT'', lit ''PRIMARY'', lit ''FOREIGN'', lit ''UNIQUE'', lit ''CHECK'',
      lit ''WITH'', lit ''ALTER'']"

definition col_match :: "str \<Rightarrow> str option" where
  \<comment> \<open>\<^verbatim>\<open>re.match(r'^["\']?(\w+)', line)\<close>: group 1. When no word
     follows a leading quote, giving the quote up does not help: the line
     then starts with the quote, which is no word character.\<close>
  "col_match line =
     (let r = (case line of [] \<Rightarrow> [] | c # cs \<Rightarrow> if c = QUOT \<or> c = APOS then cs else line);
          w = takeWhile isword r
      in if w = [] then None else Some w)"

definition column_of_line :: "str \<Rightarrow> str option" where
  \<comment> \<open>the body of the loop over the lines: the column that the line adds, if any\<close>
  "column_of_line raw =
     (let line = rstrip_chars [COMMA] (strip raw) in
      if line = [] \<or> (\<exists>k \<in> set skip_keywords. startswith (upper line) k) then None
      else col_match line)"

definition columns_of :: "str \<Rightarrow> str list" where
  "columns_of columns_section = List.map_filter column_of_line (splitlines columns_section)"

type_synonym catalog = "(str \<times> str list) list"

definition parse_sql :: "str \<Rightarrow> catalog" where
  \<comment> \<open>the dictionary \<open>classes_dict\<close> in insertion order; assigning to a key
     that is present replaces its value in place\<close>
  "parse_sql sql_content =
     foldl (\<lambda>classes_dict (full_table_name, table_name, columns_section).
              AList.update (class_name table_name) (columns_of columns_section) classes_dict)
       [] (finditer sql_content)"

section \<open>Name normalisation\<close>

text \<open>
  \<open>normalize_str\<close> decomposes its text with
  \<open>unicodedata.normalize('NFKD', s)\<close>, drops the characters whose canonical
  combining class \<open>unicodedata.combining(c)\<close> is not zero, and then applies
  \<open>lower()\<close>, \<open>replace('_', '')\<close> and \<open>strip()\<close>. The table lists the full
  compatibility decompositions of the code points up to U+00FF that have one;
  the combining classes are those of the eight marks the table contains.
\<close>

definition decompositions :: "(cp \<times> str) list" where
  "decompositions =
    [(0xA0, [0x20]), (0xA8, [0x20, 0x308]), (0xAA, [0x61]), (0xAF, [0x20, 0x304]),
     (0xB2, [0x32]), (0xB3, [0x33]), (0xB4, [0x20, 0x301]), (0xB5, [0x3BC]),
     (0xB8, [0x20, 0x327]), (0xB9, [0x31]), (0xBA, [0x6F]), (0xBC, [0x31, 0x2044, 0x34]),
     (0xBD, [0x31, 0x2044, 0x32]), (0xBE, [0x33, 0x2044, 0x34]), (0xC0, [0x41, 0x300]),
     (0xC1, [0x41, 0x301]), (0xC2, [0x41, 0x302]), (0xC3, [0x41, 0x303]),
     (0xC4, [0x41, 0x308]), (0xC5, [0x41, 0x30A]), (0xC7, [0x43, 0x327]),
     (0xC8, [0x45, 0x300]), (0xC9, [0x45, 0x301]), (0xCA, [0x45, 0x302]),
     (0xCB, [0x45, 0x308]), (0xCC, [0x49, 0x300]), (0xCD, [0x49, 0x301]),
     (0xCE, [0x49, 0x302]), (0xCF, [0x49, 0x308]), (0xD1, [0x4E, 0x303]),
     (0xD2, [0x4F, 0x300]), (0xD3, [0x4F, 0x301]), (0xD4, [0x4F, 0x302]),
     (0xD5, [0x4F, 0x303]), (0xD6, [0x4F, 0x308]), (0xD9, [0x55, 0x300]),
     (0xDA, [0x55, 0x301]), (0xDB, [0x55, 0x302]), (0xDC, [0x55, 0x308]),
     (0xDD, [0x59, 0x301]), (0xE0, [0x61, 0x300]), (0xE1, [0x61, 0x301]),
     (0xE2, [0x61, 0x302]), (0xE3, [0x61, 0x303]), (0xE4, [0x61, 0x308]),
     (0xE5, [0x61, 0x30A]), (0xE7, [0x63, 0x327]), (0xE8, [0x65, 0x300]),
     (0xE9, [0x65, 0x301]), (0xEA, [0x65, 0x302]), (0xEB, [0x65, 0x308]),
     (0xEC, [0x69, 0x300]), (0xED, [0x69, 0x301]), (0xEE, [0x69, 0x302]),
     (0xEF, [0x69, 0x308]), (0xF1, [0x6E, 0x303]), (0xF2, [0x6F, 0x300]),
     (0xF3, [0x6F, 0x301]), (0xF4, [0x6F, 0x302]), (0xF5, [0x6F, 0x303]),
     (0xF6, [0x6F, 0x308]), (0xF9, [0x75, 0x300]), (0xFA, [0x75, 0x301]),
     (0xFB, [0x75, 0x302]), (0xFC, [0x75, 0x308]), (0xFD, [0x79, 0x301]),
     (0xFF, [0x79, 0x308])]"

definition decomposition :: "cp \<Rightarrow> str" where
  "decomposition c = (case map_of decompositions c of Some d \<Rightarrow> d | None \<Rightarrow> [c])"

definition combining :: "cp \<Rightarrow> nat" where
  \<comment> \<open>\<open>unicodedata.combining\<close>\<close>
  "combining c =
     (if c = 0x300 \<or> c = 0x301 \<or> c = 0x302 \<or> c = 0x303 \<or> c = 0x304 \<or> c = 0x308 \<or> c = 0x30A
      then 230
      else if c = 0x327 then 202
      else 0)"

fun place_mark :: "cp \<Rightarrow> str \<Rightarrow> str" where
  \<comment> \<open>canonical ordering, on the reversed text before the mark: a mark moves
     in front of the marks of a higher class that precede it\<close>
  "place_mark c [] = [c]"
| "place_mark c (p # ps) =
     (if combining c \<noteq> 0 \<and> combining c < combining p then p # place_mark c ps
      else c # p # ps)"

definition canonical_order :: "str \<Rightarrow> str" where
  "canonical_order s = rev (foldl (\<lambda>acc c. place_mark c acc) [] s)"

definition nfkd :: "str \<Rightarrow> str" where
  \<comment> \<open>\<open>unicodedata.normalize('NFKD', s)\<close>\<close>
  "nfkd s = canonical_order (concat (map decomposition s))"

definition normalize_str :: "str \<Rightarrow> str" where
  "normalize_str s =
     (let nfkd = nfkd s;
          no_accent = filter (\<lambda>c. combining c = 0) nfkd
      in strip (filter (\<lambda>c. c \<noteq> LOW_LINE) (lower no_accent)))"

section \<open>The automatic mapping\<close>

datatype error = ImportError | ValueError | DatabaseError

text \<open>
  The similarity functions come from the library \<open>fuzzywuzzy\<close>, which the module
  imports inside \<open>try\<close>: after a failed import \<open>fuzz\<close> and \<open>process\<close> are both
  \<open>None\<close>. The mapping takes the imported scorer as an optional parameter: the
  score, from 0 to 100, that \<open>process.extract\<close> with \<open>scorer=fuzz.partial_ratio\<close>
  gives to a query and a choice. \<open>process.extract(query, choices, limit=n)\<close> scores
  every choice in turn and returns the \<open>n\<close> best pairs of choice and score, the
  higher score first and choices of equal score in their order in \<open>choices\<close>.
\<close>

type_synonym scorer = "str \<Rightarrow> str \<Rightarrow> nat"

definition sorted_by_score :: "(str \<times> nat) list \<Rightarrow> (str \<times> nat) list" where
  \<comment> \<open>\<open>sorted(xs, key=lambda x: x[1], reverse=True)\<close>: a stable sort\<close>
  "sorted_by_score xs = sort_key (\<lambda>(match, score). - int score) xs"

definition process_extract :: "scorer \<Rightarrow> str \<Rightarrow> str list \<Rightarrow> nat \<Rightarrow> (str \<times> nat) list" where
  "process_extract scorer query choices limit =
     take limit (sorted_by_score (map (\<lambda>choice. (choice, scorer query choice)) choices))"

definition candidates_of :: "(str \<rightharpoonup> str list) \<Rightarrow> str \<Rightarrow> str list" where
  \<comment> \<open>the list \<open>candidates\<close> of one attribute\<close>
  "candidates_of synonyms_dict attr =
     normalize_str attr #
       (case synonyms_dict (lower attr) of
          None \<Rightarrow> []
        | Some syns \<Rightarrow> map normalize_str syns)"

definition record_match :: "int \<Rightarrow> (str \<times> nat) list \<Rightarrow> str \<times> nat \<Rightarrow> (str \<times> nat) list" where
  \<comment> \<open>the body of the loop over \<open>results\<close>, on the dictionary
     \<open>candidate_matches\<close> in insertion order\<close>
  "record_match threshold candidate_matches = (\<lambda>(match, score).
     if threshold \<le> int score then
       (case map_of candidate_matches match of
          None \<Rightarrow> AList.update match score candidate_matches
        | Some old \<Rightarrow>
            if old < score then AList.update match score candidate_matches
            else candidate_matches)
     else candidate_matches)"

definition candidate_matches_of ::
  "scorer \<Rightarrow> int \<Rightarrow> str list \<Rightarrow> str list \<Rightarrow> (str \<times> nat) list" where
  \<comment> \<open>the loop over \<open>candidates\<close>\<close>
  "candidate_matches_of scorer threshold normalized_fields candidates =
     foldl (\<lambda>candidate_matches candidate.
              foldl (record_match threshold) candidate_matches
                (process_extract scorer candidate normalized_fields (length normalized_fields)))
       [] candidates"

definition sorted_matches_of ::
  "scorer \<Rightarrow> int \<Rightarrow> (str \<rightharpoonup> str list) \<Rightarrow> str list \<Rightarrow> str \<Rightarrow> (str \<times> nat) list" where
  \<comment> \<open>the list \<open>sorted_matches\<close> of one attribute\<close>
  "sorted_matches_of scorer threshold synonyms_dict normalized_fields attr =
     sorted_by_score
       (candidate_matches_of scorer threshold normalized_fields (candidates_of synonyms_dict attr))"

definition best_match_of :: "str set \<Rightarrow> (str \<times> nat) list \<Rightarrow> str option" where
  \<comment> \<open>the first of \<open>sorted_matches\<close> that is not in \<open>used_fields\<close>\<close>
  "best_match_of used_fields sorted_matches =
     map_option fst (find (\<lambda>(match, score). match \<notin> used_fields) sorted_matches)"

record map_state =
  mapping :: "(str \<times> str option) list"
  used_fields :: "str set"

definition map_attribute ::
  "scorer \<Rightarrow> int \<Rightarrow> (str \<rightharpoonup> str list) \<Rightarrow> (str \<times> str) list \<Rightarrow> map_state \<Rightarrow> str \<Rightarrow> map_state" where
  \<comment> \<open>the body of the loop over \<open>model_attributes\<close>; \<open>Some None\<close> in the
     mapping is the value \<open>None\<close> of an attribute without a field\<close>
  "map_attribute scorer threshold synonyms_dict normalized_layer_fields st attr =
     (let normalized_fields = map snd normalized_layer_fields;
          sorted_matches =
            sorted_matches_of scorer threshold synonyms_dict normalized_fields attr
      in case best_match_of (used_fields st) sorted_matches of
           Some best_match \<Rightarrow>
             (case find (\<lambda>(original, norm). norm = best_match) normalized_layer_fields of
                Some (original, norm) \<Rightarrow>
                  st\<lparr>mapping := AList.update attr (Some original) (mapping st),
                     used_fields := insert best_match (used_fields st)\<rparr>
              | None \<Rightarrow> st)
         | None \<Rightarrow> st\<lparr>mapping := AList.update attr None (mapping st)\<rparr>)"

definition auto_map_attributes_with_synonyms ::
  "scorer option \<Rightarrow> str list \<Rightarrow> str list \<Rightarrow> (str \<rightharpoonup> str list) \<Rightarrow> int
     \<Rightarrow> error + (str \<times> str option) list" where
  "auto_map_attributes_with_synonyms fuzz model_attributes layer_fields synonyms_dict threshold =
     (case fuzz of
        None \<Rightarrow> Inl ImportError
      | Some scorer \<Rightarrow>
          (let normalized_layer_fields = map (\<lambda>field. (field, normalize_str field)) layer_fields
           in Inr (mapping
                (foldl (map_attribute scorer threshold synonyms_dict normalized_layer_fields)
                   \<lparr>mapping = [], used_fields = {}\<rparr> model_attributes))))"

definition SYNONYMS_DICT :: "str \<rightharpoonup> str list" where
  "SYNONYMS_DICT =
     map_of
       [(lit ''nome'', [lit ''name'']),
        (lit ''name'', [lit ''nome'']),
        (lit ''descricao'', [lit ''description'', lit ''descri'' @ [0xE7, 0xE3] @ lit ''o'']),
        (lit ''description'', [lit ''descricao'', lit ''descri'' @ [0xE7, 0xE3] @ lit ''o'']),
        (lit ''id'', [lit ''identificador'', lit ''id'']),
        (lit ''codigo'', [lit ''code'', lit ''codigo''])]"

section \<open>The database extractor\<close>



fun split_from :: "cp \<Rightarrow> str \<Rightarrow> str \<Rightarrow> str list" where
  "split_from sep cur [] = [cur]"
| "split_from sep cur (c # cs) =
     (if c = sep then cur # split_from sep [] cs else split_from sep (cur @ [c]) cs)"

definition split :: "cp \<Rightarrow> str \<Rightarrow> str list" where
  \<comment> \<open>\<open>s.split(sep)\<close> for a separator of one character\<close>
  "split sep s = split_from sep [] s"



section \<open>Auxiliary notions\<close>

definition settled :: "cp \<Rightarrow> bool" where
  \<comment> \<open>a code point that the first three steps of \<open>normalize_str\<close> leave alone\<close>
  "settled c \<longleftrightarrow> decomposition c = [c] \<and> combining c = 0 \<and> lower_cp c = c"

definition plain :: "cp \<Rightarrow> bool" where
  \<comment> \<open>a lower-case letter of ASCII or a digit\<close>
  "plain c \<longleftrightarrow> (0x61 \<le> c \<and> c \<le> 0x7A) \<or> (0x30 \<le> c \<and> c \<le> 0x39)"

section \<open>The SQL parser on the road table\<close>

text \<open>
  Claim C2, as stated: on the text
  \<^verbatim>\<open>CREATE TABLE public.roads_a (id integer, name varchar(50), CONSTRAINT pk PRIMARY KEY(id));\<close>
  the parser returns the catalogue with the one class \<open>roads\<close> and the columns
  \<open>id\<close> and \<open>name\<close>. It does not: the column block is read line by line, and
  this text has the whole block on one line.
\<close>

theorem parse_sql_roads_counterexample:
  "parse_sql (lit ''CREATE TABLE public.roads_a (id integer, name varchar(50), CONSTRAINT pk PRIMARY KEY(id));'')
     \<noteq> [(lit ''roads'', [lit ''id'', lit ''name''])]"
  by code_simp

text \<open>
  Claim C2, amended: on that text the parser returns the catalogue with the one
  class \<open>roads\<close> (schema prefix dropped, suffix \<open>_a\<close> stripped) and the single
  column \<open>id\<close>, the leading identifier of the only line of the block. With the
  same three clauses on a line each, it returns the columns \<open>id\<close> and \<open>name\<close>
  in order, and the constraint line is skipped.
\<close>

theorem parse_sql_roads:
  "parse_sql (lit ''CREATE TABLE public.roads_a (id integer, name varchar(50), CONSTRAINT pk PRIMARY KEY(id));'')
     = [(lit ''roads'', [lit ''id''])]
   \<and> parse_sql (lit ''CREATE TABLE public.roads_a ('' @ [LF] @ lit ''id integer,'' @ [LF]
        @ lit ''name varchar(50),'' @ [LF] @ lit ''CONSTRAINT pk PRIMARY KEY(id)'' @ [LF] @ lit '');'')
     = [(lit ''roads'', [lit ''id'', lit ''name''])]"
  by code_simp

section \<open>Name normalisation is idempotent\<close>

lemma decompositions_keys:
  "map_of decompositions c = Some d \<Longrightarrow> 0xA0 \<le> c \<and> c \<le> 0xFF"
proof -
  assume "map_of decompositions c = Some d"
  then have "(c, d) \<in> set decompositions" by (rule map_of_SomeD)
  moreover have "\<forall>(k, v) \<in> set decompositions. 0xA0 \<le> k \<and> k \<le> 0xFF"
    by (simp add: decompositions_def)
  ultimately show ?thesis by blast
qed

lemma decomposition_outside:
  "c < 0xA0 \<or> 0xFF < c \<Longrightarrow> decomposition c = [c]"
  using decompositions_keys [of c] by (fastforce simp: decomposition_def split: option.splits)






lemma filter_place_mark:
  "filter (\<lambda>c. combining c = 0) (place_mark c acc) = filter (\<lambda>c. combining c = 0) (c # acc)"
  by (induction acc) auto

lemma filter_foldl_place_mark:
  "filter (\<lambda>c. combining c = 0) (foldl (\<lambda>acc c. place_mark c acc) acc s)
     = filter (\<lambda>c. combining c = 0) (rev s @ acc)"
proof (induction s arbitrary: acc)
  case Nil
  show ?case by simp
next
  case (Cons a s)
  have "filter (\<lambda>c. combining c = 0) (foldl (\<lambda>acc c. place_mark c acc) acc (a # s))
      = filter (\<lambda>c. combining c = 0) (rev s @ place_mark a acc)"
    using Cons.IH [of "place_mark a acc"] by simp
  also have "\<dots> = filter (\<lambda>c. combining c = 0) (rev s @ a # acc)"
    by (simp only: filter_append filter_place_mark)
  finally show ?case by simp
qed

lemma filter_nfkd:
  "filter (\<lambda>c. combining c = 0) (nfkd s)
     = filter (\<lambda>c. combining c = 0) (concat (map decomposition s))"
  by (simp add: nfkd_def canonical_order_def filter_foldl_place_mark flip: rev_filter)

lemma normalize_str_unfold:
  "normalize_str s =
     strip (filter (\<lambda>c. c \<noteq> LOW_LINE)
       (map lower_cp (filter (\<lambda>c. combining c = 0) (concat (map decomposition s)))))"
  by (simp add: normalize_str_def Let_def lower_def filter_nfkd)


lemma dropWhile_id: "xs = [] \<or> \<not> P (hd xs) \<Longrightarrow> dropWhile P xs = xs"
  by (cases xs) auto


lemma strip_fixed:
  "s = [] \<or> (\<not> isspace (hd s) \<and> \<not> isspace (last s)) \<Longrightarrow> strip s = s"
proof (cases "s = []")
  case True
  then show ?thesis by (simp add: strip_def)
next
  case False
  assume "s = [] \<or> (\<not> isspace (hd s) \<and> \<not> isspace (last s))"
  with False have h: "\<not> isspace (hd s)" and l: "\<not> isspace (last s)" by auto
  from h False have 1: "dropWhile isspace s = s" by (simp add: dropWhile_id)
  from l False have "\<not> isspace (hd (rev s))" by (simp add: hd_rev)
  then have "dropWhile isspace (rev s) = rev s" by (simp add: dropWhile_id)
  with 1 show ?thesis by (simp add: strip_def)
qed



lemma normalize_str_of_settled:
  assumes "\<forall>x \<in> set t. settled x \<and> x \<noteq> LOW_LINE"
  shows "normalize_str t = strip t"
proof -
  from assms have "concat (map decomposition t) = t"
    by (induction t) (auto simp: settled_def)
  moreover from assms have "filter (\<lambda>c. combining c = 0) t = t"
    by (induction t) (auto simp: settled_def)
  moreover from assms have "map lower_cp t = t"
    by (induction t) (auto simp: settled_def)
  moreover from assms have "filter (\<lambda>c. c \<noteq> LOW_LINE) t = t"
    by (induction t) auto
  ultimately show ?thesis by (simp add: normalize_str_unfold)
qed





section \<open>Properties of the automatic mapping\<close>

lemma plain_settled: "plain c \<Longrightarrow> settled c \<and> c \<noteq> LOW_LINE \<and> \<not> isspace c"
  by (auto simp: plain_def settled_def decomposition_outside combining_def lower_cp_def isspace_def)

lemma normalize_str_plain:
  assumes "\<forall>c \<in> set s. plain c"
  shows "normalize_str s = s"
proof -
  from assms have "normalize_str s = strip s"
    by (intro normalize_str_of_settled) (simp add: plain_settled)
  moreover have "strip s = s"
  proof (rule strip_fixed, cases "s = []")
    case False
    then have "hd s \<in> set s" "last s \<in> set s" by simp_all
    with assms show "s = [] \<or> (\<not> isspace (hd s) \<and> \<not> isspace (last s))"
      by (simp add: plain_settled)
  qed simp
  ultimately show ?thesis by simp
qed

lemma normalize_str_id: "normalize_str (lit ''id'') = lit ''id''"
  by (rule normalize_str_plain) (simp add: lit_def plain_def)

lemma normalize_str_nome: "normalize_str (lit ''nome'') = lit ''nome''"
  by (rule normalize_str_plain) (simp add: lit_def plain_def)

lemma normalize_str_name: "normalize_str (lit ''name'') = lit ''name''"
  by (rule normalize_str_plain) (simp add: lit_def plain_def)

lemma lit_eq_iff: "lit a = lit b \<longleftrightarrow> a = b"
  unfolding lit_def by (rule inj_map_eq_map) (simp add: inj_def)

lemmas auto_map_defs =
  auto_map_attributes_with_synonyms_def map_attribute_def sorted_matches_of_def
  candidate_matches_of_def candidates_of_def process_extract_def sorted_by_score_def
  record_match_def best_match_of_def

lemma dom_record_match:
  "dom (map_of (record_match threshold cm (m, s)))
     = dom (map_of cm) \<union> (if threshold \<le> int s then {m} else {})"
  by (auto simp: record_match_def update_conv' split: option.splits if_splits)

lemma dom_foldl_record_match:
  "dom (map_of (foldl (record_match threshold) cm ps))
     = dom (map_of cm) \<union> {m. \<exists>s. (m, s) \<in> set ps \<and> threshold \<le> int s}"
proof (induction ps arbitrary: cm)
  case Nil
  show ?case by simp
next
  case (Cons p ps)
  obtain m s where p: "p = (m, s)" by (cases p)
  show ?case unfolding p by (auto simp: Cons.IH dom_record_match split: if_splits)
qed

lemma set_process_extract:
  "set (process_extract scorer query choices (length choices))
     = (\<lambda>choice. (choice, scorer query choice)) ` set choices"
  by (simp add: process_extract_def sorted_by_score_def)

lemma dom_candidate_matches_aux:
  "dom (map_of (foldl (\<lambda>cm candidate. foldl (record_match threshold) cm
                (process_extract scorer candidate nf (length nf))) cm0 candidates))
     = dom (map_of cm0) \<union> {n \<in> set nf. \<exists>c \<in> set candidates. threshold \<le> int (scorer c n)}"
proof (induction candidates arbitrary: cm0)
  case Nil
  show ?case by simp
next
  case (Cons c cs)
  show ?case
    by (auto simp: Cons.IH dom_foldl_record_match set_process_extract)
qed

lemma keys_candidate_matches:
  "fst ` set (candidate_matches_of scorer threshold nf candidates)
     = {n \<in> set nf. \<exists>c \<in> set candidates. threshold \<le> int (scorer c n)}"
  unfolding candidate_matches_of_def
  by (simp add: dom_candidate_matches_aux flip: dom_map_of_conv_image_fst)

lemma keys_sorted_matches:
  "fst ` set (sorted_matches_of scorer threshold synonyms_dict nf attr)
     = {n \<in> set nf. \<exists>c \<in> set (candidates_of synonyms_dict attr). threshold \<le> int (scorer c n)}"
  by (simp add: sorted_matches_of_def sorted_by_score_def keys_candidate_matches)

lemma find_SomeD: "find P xs = Some x \<Longrightarrow> P x \<and> x \<in> set xs"
  by (induction xs) (auto split: if_splits)

lemma best_match_of_Some:
  assumes "best_match_of used sm = Some bm"
  shows "bm \<notin> used \<and> bm \<in> fst ` set sm"
proof -
  from assms obtain x where
    x: "find (\<lambda>(match, score). match \<notin> used) sm = Some x" and "bm = fst x"
    by (auto simp: best_match_of_def)
  from find_SomeD [OF x] \<open>bm = fst x\<close> show ?thesis
    by (auto split: prod.splits)
qed

lemma best_match_of_None:
  "best_match_of used sm = None \<longleftrightarrow> fst ` set sm \<subseteq> used"
  by (auto simp: best_match_of_def find_None_iff)

lemma find_original:
  assumes "bm \<in> set (map snd nlf)"
  obtains original where "find (\<lambda>(original, norm). norm = bm) nlf = Some (original, bm)"
    and "(original, bm) \<in> set nlf"
proof -
  from assms have "\<exists>x. x \<in> set nlf \<and> (\<lambda>(original, norm). norm = bm) x" by auto
  then obtain y where y: "find (\<lambda>(original, norm). norm = bm) nlf = Some y"
    by (cases "find (\<lambda>(original, norm). norm = bm) nlf") (auto simp: find_None_iff)
  from find_SomeD [OF y] have "y \<in> set nlf" and "snd y = bm"
    by (auto split: prod.splits)
  with y that show ?thesis by (cases y) auto
qed

lemma map_attribute_cases:
  fixes st :: map_state
  obtains
    (unmapped) "map_attribute scorer threshold synonyms_dict nlf st attr
                  = st\<lparr>mapping := AList.update attr None (mapping st)\<rparr>"
      and "fst ` set (sorted_matches_of scorer threshold synonyms_dict (map snd nlf) attr)
             \<subseteq> used_fields st"
  | (mapped) original bm where
      "map_attribute scorer threshold synonyms_dict nlf st attr
         = st\<lparr>mapping := AList.update attr (Some original) (mapping st),
              used_fields := insert bm (used_fields st)\<rparr>"
      and "best_match_of (used_fields st)
             (sorted_matches_of scorer threshold synonyms_dict (map snd nlf) attr) = Some bm"
      and "find (\<lambda>(original, norm). norm = bm) nlf = Some (original, bm)"
proof (cases "best_match_of (used_fields st)
                (sorted_matches_of scorer threshold synonyms_dict (map snd nlf) attr)")
  case None
  show ?thesis
  proof (rule unmapped)
    show "map_attribute scorer threshold synonyms_dict nlf st attr
            = st\<lparr>mapping := AList.update attr None (mapping st)\<rparr>"
      using None by (simp add: map_attribute_def)
    show "fst ` set (sorted_matches_of scorer threshold synonyms_dict (map snd nlf) attr)
            \<subseteq> used_fields st"
      using None by (simp add: best_match_of_None)
  qed
next
  case (Some bm)
  from best_match_of_Some [OF Some]
  have "bm \<in> fst ` set (sorted_matches_of scorer threshold synonyms_dict (map snd nlf) attr)"
    by (rule conjunct2)
  then have "bm \<in> set (map snd nlf)"
    unfolding keys_sorted_matches by simp
  then obtain original where
    f: "find (\<lambda>(original, norm). norm = bm) nlf = Some (original, bm)"
    by (rule find_original)
  show ?thesis
  proof (rule mapped)
    show "map_attribute scorer threshold synonyms_dict nlf st attr
            = st\<lparr>mapping := AList.update attr (Some original) (mapping st),
                 used_fields := insert bm (used_fields st)\<rparr>"
      using Some f by (simp add: map_attribute_def)
    show "best_match_of (used_fields st)
            (sorted_matches_of scorer threshold synonyms_dict (map snd nlf) attr) = Some bm"
      by (rule Some)
    show "find (\<lambda>(original, norm). norm = bm) nlf = Some (original, bm)"
      by (rule f)
  qed
qed


lemma foldl_invariant:
  assumes "P s" and "\<And>s x. P s \<Longrightarrow> x \<in> set xs \<Longrightarrow> P (f s x)"
  shows "P (foldl f s xs)"
  using assms by (induction xs arbitrary: s) auto

lemma find_normalized:
  assumes "find (\<lambda>(original, norm). norm = bm) (map (\<lambda>field. (field, normalize_str field)) layer_fields)
             = Some (original, bm)"
  shows "original \<in> set layer_fields \<and> normalize_str original = bm"
  using find_SomeD [OF assms] by auto

lemma map_attribute_once:
  fixes st :: map_state
  assumes 1: "\<forall>a f. map_of (mapping st) a = Some (Some f) \<longrightarrow> normalize_str f \<in> used_fields st"
    and 2: "\<forall>a b f. a \<noteq> b \<longrightarrow> map_of (mapping st) a = Some (Some f)
               \<longrightarrow> map_of (mapping st) b \<noteq> Some (Some f)"
    and st': "st' = map_attribute scorer threshold synonyms_dict
                     (map (\<lambda>field. (field, normalize_str field)) layer_fields) st attr"
  shows "(\<forall>a f. map_of (mapping st') a = Some (Some f) \<longrightarrow> normalize_str f \<in> used_fields st')
       \<and> (\<forall>a b f. a \<noteq> b \<longrightarrow> map_of (mapping st') a = Some (Some f)
               \<longrightarrow> map_of (mapping st') b \<noteq> Some (Some f))"
proof (cases rule: map_attribute_cases [where st = st and attr = attr and scorer = scorer
      and threshold = threshold and synonyms_dict = synonyms_dict
      and nlf = "map (\<lambda>field. (field, normalize_str field)) layer_fields"])
  case unmapped
  with 1 2 show ?thesis unfolding st' by (auto simp: update_conv')
next
  case (mapped original bm)
  from find_normalized [OF mapped(3)] have n: "normalize_str original = bm" by simp
  from best_match_of_Some [OF mapped(2)] have u: "bm \<notin> used_fields st" by simp
  from 1 u n have fresh: "\<And>a. map_of (mapping st) a \<noteq> Some (Some original)" by blast
  show ?thesis
  proof (intro conjI allI impI)
    fix a f assume "map_of (mapping st') a = Some (Some f)"
    then show "normalize_str f \<in> used_fields st'"
      using 1 n unfolding st' mapped(1) by (auto simp: update_conv' split: if_splits)
  next
    fix a b f assume "a \<noteq> b" and "map_of (mapping st') a = Some (Some f)"
    then show "map_of (mapping st') b \<noteq> Some (Some f)"
      using 2 fresh unfolding st' mapped(1) by (auto simp: update_conv' split: if_splits)
  qed
qed

lemma auto_map_once:
  fixes st :: map_state
  assumes "st = foldl (map_attribute scorer threshold synonyms_dict
                     (map (\<lambda>field. (field, normalize_str field)) layer_fields))
                 \<lparr>mapping = [], used_fields = {}\<rparr> attrs"
  shows "(\<forall>a f. map_of (mapping st) a = Some (Some f) \<longrightarrow> normalize_str f \<in> used_fields st)
       \<and> (\<forall>a b f. a \<noteq> b \<longrightarrow> map_of (mapping st) a = Some (Some f)
               \<longrightarrow> map_of (mapping st) b \<noteq> Some (Some f))"
  unfolding assms
proof (rule foldl_invariant, goal_cases)
  case 1
  show ?case by simp
next
  case (2 s x)
  then show ?case using map_attribute_once [OF _ _ refl] by blast
qed

text \<open>
  Claim C1: in the mapping that \<open>auto_map_attributes_with_synonyms\<close> returns, no
  two distinct model attributes have the same layer field as their value, for
  every attribute list, field list, synonym table, threshold and scorer. An
  attribute without a field has the value \<open>None\<close>, which may repeat.
\<close>

theorem field_used_at_most_once:
  assumes "auto_map_attributes_with_synonyms fuzz model_attributes layer_fields synonyms_dict threshold
             = Inr m"
    and "a \<noteq> b"
    and "map_of m a = Some (Some field)"
  shows "map_of m b \<noteq> Some (Some field)"
proof -
  from assms(1) obtain scorer where
    m: "m = mapping (foldl (map_attribute scorer threshold synonyms_dict
                     (map (\<lambda>field. (field, normalize_str field)) layer_fields))
                 \<lparr>mapping = [], used_fields = {}\<rparr> model_attributes)"
    by (auto simp: auto_map_attributes_with_synonyms_def split: option.splits)
  from auto_map_once [OF refl] assms(2,3) show ?thesis unfolding m by blast
qed


lemma map_attribute_other:
  fixes st :: map_state
  assumes "a \<noteq> attr"
  shows "map_of (mapping (map_attribute scorer threshold synonyms_dict nlf st attr)) a
           = map_of (mapping st) a"
  by (cases rule: map_attribute_cases [where st = st and attr = attr and scorer = scorer
        and threshold = threshold and synonyms_dict = synonyms_dict and nlf = nlf])
    (use assms in \<open>simp_all add: update_conv'\<close>)

lemma map_attribute_unmapped:
  fixes st :: map_state
  assumes "\<forall>c \<in> set (candidates_of synonyms_dict attr). \<forall>n \<in> set (map snd nlf).
             int (scorer c n) < threshold"
  shows "map_of (mapping (map_attribute scorer threshold synonyms_dict nlf st attr)) attr
           = Some None"
proof -
  from assms have "fst ` set (sorted_matches_of scorer threshold synonyms_dict (map snd nlf) attr) = {}"
    unfolding keys_sorted_matches by fastforce
  then have "best_match_of (used_fields st)
      (sorted_matches_of scorer threshold synonyms_dict (map snd nlf) attr) = None"
    by (simp add: best_match_of_None)
  then show ?thesis by (simp add: map_attribute_def update_conv')
qed

lemma foldl_unmapped:
  fixes st :: map_state
  assumes "attr \<in> set attrs"
    and "\<forall>c \<in> set (candidates_of synonyms_dict attr). \<forall>n \<in> set (map snd nlf).
             int (scorer c n) < threshold"
  shows "map_of (mapping (foldl (map_attribute scorer threshold synonyms_dict nlf) st attrs)) attr
           = Some None"
  using assms(1)
proof (induction attrs rule: rev_induct)
  case Nil
  then show ?case by simp
next
  case (snoc x xs)
  show ?case
  proof (cases "x = attr")
    case True
    then show ?thesis by (simp add: map_attribute_unmapped [OF assms(2)])
  next
    case False
    with snoc show ?thesis by (simp add: map_attribute_other)
  qed
qed

text \<open>
  Claim C9: without the similarity library the mapping raises \<open>ImportError\<close>,
  whatever its other arguments are, so before any matching. With the library it
  returns a mapping, and every attribute none of whose candidates reaches the
  threshold against any layer field has the value \<open>None\<close> there.
\<close>

theorem missing_dependency_or_unmapped:
  "auto_map_attributes_with_synonyms None model_attributes layer_fields synonyms_dict threshold
     = Inl ImportError
   \<and> (\<exists>m. auto_map_attributes_with_synonyms (Some scorer) model_attributes layer_fields
             synonyms_dict threshold = Inr m
         \<and> (\<forall>attr \<in> set model_attributes.
               (\<forall>c \<in> set (candidates_of synonyms_dict attr). \<forall>field \<in> set layer_fields.
                   int (scorer c (normalize_str field)) < threshold)
               \<longrightarrow> map_of m attr = Some None))"
proof (intro conjI exI ballI impI)
  show "auto_map_attributes_with_synonyms None model_attributes layer_fields synonyms_dict threshold
     = Inl ImportError"
    by (simp add: auto_map_attributes_with_synonyms_def)
  show "auto_map_attributes_with_synonyms (Some scorer) model_attributes layer_fields
             synonyms_dict threshold
      = Inr (mapping (foldl (map_attribute scorer threshold synonyms_dict
                     (map (\<lambda>field. (field, normalize_str field)) layer_fields))
                 \<lparr>mapping = [], used_fields = {}\<rparr> model_attributes))"
    by (simp add: auto_map_attributes_with_synonyms_def)
next
  fix attr
  assume "attr \<in> set model_attributes"
    and "\<forall>c \<in> set (candidates_of synonyms_dict attr). \<forall>field \<in> set layer_fields.
                   int (scorer c (normalize_str field)) < threshold"
  then show "map_of (mapping (foldl (map_attribute scorer threshold synonyms_dict
                     (map (\<lambda>field. (field, normalize_str field)) layer_fields))
                 \<lparr>mapping = [], used_fields = {}\<rparr> model_attributes)) attr = Some None"
    by (intro foldl_unmapped) (simp_all add: comp_def)
qed

lemma map_attribute_single:
  fixes st :: map_state
  shows "map_attribute scorer threshold synonyms_dict [(field, n)] st attr =
     (if (\<exists>c \<in> set (candidates_of synonyms_dict attr). threshold \<le> int (scorer c n))
          \<and> n \<notin> used_fields st
      then st\<lparr>mapping := AList.update attr (Some field) (mapping st),
              used_fields := insert n (used_fields st)\<rparr>
      else st\<lparr>mapping := AList.update attr None (mapping st)\<rparr>)"
proof (cases rule: map_attribute_cases [where st = st and attr = attr and scorer = scorer
        and threshold = threshold and synonyms_dict = synonyms_dict and nlf = "[(field, n)]"])
  case unmapped
  from unmapped(2) have "\<not> ((\<exists>c \<in> set (candidates_of synonyms_dict attr). threshold \<le> int (scorer c n))
          \<and> n \<notin> used_fields st)"
    unfolding keys_sorted_matches by auto
  with unmapped(1) show ?thesis by auto
next
  case (mapped original bm)
  from best_match_of_Some [OF mapped(2)]
  have "bm \<notin> used_fields st" and "bm = n"
    and "\<exists>c \<in> set (candidates_of synonyms_dict attr). threshold \<le> int (scorer c n)"
    unfolding keys_sorted_matches by auto
  moreover from mapped(3) have "original = field" by (simp split: if_splits)
  ultimately show ?thesis using mapped(1) by auto
qed


text \<open>
  Claim C4: for the attributes \<open>nome\<close>, \<open>descricao\<close> and the single layer field
  \<open>nome_completo\<close>, when each attribute has a candidate that scores at least the
  threshold against the normalised field, the earlier attribute \<open>nome\<close> gets the
  field and \<open>descricao\<close> gets \<open>None\<close>.
\<close>

theorem earlier_attribute_claims_field:
  assumes "\<exists>c \<in> set (candidates_of synonyms_dict (lit ''nome'')).
             threshold \<le> int (scorer c (normalize_str (lit ''nome_completo'')))"
    and "\<exists>c \<in> set (candidates_of synonyms_dict (lit ''descricao'')).
             threshold \<le> int (scorer c (normalize_str (lit ''nome_completo'')))"
  shows "auto_map_attributes_with_synonyms (Some scorer) [lit ''nome'', lit ''descricao'']
           [lit ''nome_completo''] synonyms_dict threshold
         = Inr [(lit ''nome'', Some (lit ''nome_completo'')), (lit ''descricao'', None)]"
  using assms
  by (simp add: auto_map_attributes_with_synonyms_def map_attribute_single lit_eq_iff)

text \<open>
  The theorem at work: with the synonym table of the module, the threshold 80
  and a scorer that gives 100 to every pair.
\<close>

theorem earlier_attribute_claims_field_witness:
  "auto_map_attributes_with_synonyms (Some (\<lambda>c f. 100)) [lit ''nome'', lit ''descricao'']
           [lit ''nome_completo''] SYNONYMS_DICT 80
         = Inr [(lit ''nome'', Some (lit ''nome_completo'')), (lit ''descricao'', None)]"
proof -
  have "\<exists>c \<in> set (candidates_of SYNONYMS_DICT (lit ''nome'')).
          80 \<le> int ((\<lambda>c f. 100) c (normalize_str (lit ''nome_completo'')))"
    and "\<exists>c \<in> set (candidates_of SYNONYMS_DICT (lit ''descricao'')).
          80 \<le> int ((\<lambda>c f. 100) c (normalize_str (lit ''nome_completo'')))"
    by (auto simp: candidates_of_def)
  then show ?thesis by (rule earlier_attribute_claims_field)
qed

lemma in_update:
  "p \<in> set (AList.update k v al) \<Longrightarrow> p = (k, v) \<or> p \<in> set al"
  by (induction al) (auto split: if_splits)

lemma scores_record_match:
  assumes "\<forall>(m, s) \<in> set cm. threshold \<le> int s"
  shows "\<forall>(m, s) \<in> set (record_match threshold cm p). threshold \<le> int s"
proof -
  obtain m s where p: "p = (m, s)" by (cases p)
  show ?thesis using assms unfolding p record_match_def
    by (auto dest!: in_update split: option.splits)
qed

lemma scores_candidate_matches:
  "\<forall>(m, s) \<in> set (candidate_matches_of scorer threshold nf candidates). threshold \<le> int s"
  unfolding candidate_matches_of_def
proof (rule foldl_invariant, goal_cases)
  case 1
  show ?case by simp
next
  case (2 cm c)
  show ?case
  proof (rule foldl_invariant, goal_cases)
    case 1
    show ?case by (rule 2(1))
  next
    case (2 cm' p)
    then show ?case by (intro scores_record_match)
  qed
qed

lemma scores_sorted_matches:
  "(n, s) \<in> set (sorted_matches_of scorer threshold synonyms_dict nf attr) \<Longrightarrow> threshold \<le> int s"
  using scores_candidate_matches [of scorer threshold nf "candidates_of synonyms_dict attr"]
  by (auto simp: sorted_matches_of_def sorted_by_score_def)

text \<open>
  Claim C8: the test against the threshold is inclusive. For a candidate of an
  attribute and a normalised layer field: when the pair scores exactly the
  threshold, the field is among the sorted matches of the attribute, and the
  attribute gets a field unless that one is used already; when the pair scores
  the threshold minus one, the pair is no entry of the sorted matches.
\<close>

theorem threshold_inclusive:
  assumes "c \<in> set (candidates_of synonyms_dict attr)" and "n \<in> set normalized_fields"
  shows "(int (scorer c n) = threshold \<longrightarrow>
            n \<in> fst ` set (sorted_matches_of scorer threshold synonyms_dict normalized_fields attr)
            \<and> (n \<notin> used \<longrightarrow>
                 best_match_of used
                   (sorted_matches_of scorer threshold synonyms_dict normalized_fields attr) \<noteq> None))
       \<and> (int (scorer c n) = threshold - 1 \<longrightarrow>
            (n, scorer c n)
              \<notin> set (sorted_matches_of scorer threshold synonyms_dict normalized_fields attr))"
proof (intro conjI impI)
  assume eq: "int (scorer c n) = threshold"
  with assms
  show in_keys: "n \<in> fst ` set (sorted_matches_of scorer threshold synonyms_dict normalized_fields attr)"
    unfolding keys_sorted_matches by auto
  assume "n \<notin> used"
  with in_keys show "best_match_of used
      (sorted_matches_of scorer threshold synonyms_dict normalized_fields attr) \<noteq> None"
    unfolding best_match_of_None by blast
next
  assume "int (scorer c n) = threshold - 1"
  then show "(n, scorer c n)
      \<notin> set (sorted_matches_of scorer threshold synonyms_dict normalized_fields attr)"
    using scores_sorted_matches [of n "scorer c n" scorer threshold synonyms_dict normalized_fields attr]
    by auto
qed


text \<open>
  The theorem at work: two attributes, two fields, each attribute gets its own.
\<close>

theorem field_used_at_most_once_witness:
  "auto_map_attributes_with_synonyms (Some (\<lambda>c f. if c = f then 100 else 0))
       [lit ''id'', lit ''nome''] [lit ''nome'', lit ''id''] Map.empty 80
     = Inr [(lit ''id'', Some (lit ''id'')), (lit ''nome'', Some (lit ''nome''))]
   \<and> lit ''id'' \<noteq> lit ''nome''
   \<and> map_of [(lit ''id'', Some (lit ''id'')), (lit ''nome'', Some (lit ''nome''))] (lit ''id'')
       = Some (Some (lit ''id''))
   \<and> map_of [(lit ''id'', Some (lit ''id'')), (lit ''nome'', Some (lit ''nome''))] (lit ''nome'')
       \<noteq> Some (Some (lit ''id''))"
proof -
  have ev: "auto_map_attributes_with_synonyms (Some (\<lambda>c f. if c = f then 100 else 0))
       [lit ''id'', lit ''nome''] [lit ''nome'', lit ''id''] Map.empty 80
     = Inr [(lit ''id'', Some (lit ''id'')), (lit ''nome'', Some (lit ''nome''))]"
    by (simp add: auto_map_defs normalize_str_id normalize_str_nome lit_eq_iff)
  have ne: "lit ''id'' \<noteq> lit ''nome''" by (simp add: lit_eq_iff)
  have at: "map_of [(lit ''id'', Some (lit ''id'')), (lit ''nome'', Some (lit ''nome''))] (lit ''id'')
       = Some (Some (lit ''id''))"
    by simp
  from field_used_at_most_once [OF ev ne at] ev ne at show ?thesis by simp
qed

text \<open>
  The theorem at work: a scorer that gives 0 to every pair leaves the attribute
  without a field.
\<close>

theorem missing_dependency_or_unmapped_witness:
  "auto_map_attributes_with_synonyms None [lit ''nome''] [lit ''id''] SYNONYMS_DICT 80
     = Inl ImportError
   \<and> (\<exists>m. auto_map_attributes_with_synonyms (Some (\<lambda>c f. 0)) [lit ''nome''] [lit ''id'']
             SYNONYMS_DICT 80 = Inr m
         \<and> map_of m (lit ''nome'') = Some None)"
  using missing_dependency_or_unmapped
    [of "[lit ''nome'']" "[lit ''id'']" SYNONYMS_DICT 80 "\<lambda>c f. 0"]
  by simp

text \<open>
  The theorem at work: threshold 80, a scorer that gives 80 to every pair and
  one that gives 79.
\<close>

theorem threshold_inclusive_witness:
  "lit ''nome'' \<in> fst ` set (sorted_matches_of (\<lambda>c f. 80) 80 SYNONYMS_DICT [lit ''nome''] (lit ''nome''))
   \<and> best_match_of {} (sorted_matches_of (\<lambda>c f. 80) 80 SYNONYMS_DICT [lit ''nome''] (lit ''nome''))
       \<noteq> None
   \<and> (lit ''nome'', 79)
       \<notin> set (sorted_matches_of (\<lambda>c f. 79) 80 SYNONYMS_DICT [lit ''nome''] (lit ''nome''))"
proof -
  have c: "normalize_str (lit ''nome'') \<in> set (candidates_of SYNONYMS_DICT (lit ''nome''))"
    by (simp add: candidates_of_def)
  have n: "lit ''nome'' \<in> set [lit ''nome'']" by simp
  from threshold_inclusive [OF c n, of "\<lambda>c f. 80" 80 "{}"]
    threshold_inclusive [OF c n, of "\<lambda>c f. 79" 80 "{}"]
  show ?thesis by simp
qed

section \<open>Properties of the SQL parser\<close>


lemma find_NoneD: "find P xs = None \<Longrightarrow> x \<in> set xs \<Longrightarrow> \<not> P x"
  by (induction xs) (auto split: if_splits)

lemma find_exists: "x \<in> set xs \<Longrightarrow> P x \<Longrightarrow> \<exists>y. find P xs = Some y"
  by (induction xs) auto









lemma keys_foldl_update:
  "fst ` set (foldl (\<lambda>d x. AList.update (k x) (v x) d) acc xs) = fst ` set acc \<union> k ` set xs"
  by (induction xs arbitrary: acc) (auto simp: dom_update)

lemma keys_parse_sql:
  "fst ` set (parse_sql sql)
     = class_name ` (\<lambda>(full_table_name, table_name, columns_section). table_name) ` set (finditer sql)"
proof -
  have "parse_sql sql
      = foldl (\<lambda>d x. AList.update (class_name (fst (snd x))) (columns_of (snd (snd x))) d)
          [] (finditer sql)"
    by (simp add: parse_sql_def case_prod_unfold)
  then show ?thesis
    by (simp add: keys_foldl_update image_image case_prod_unfold)
qed







lemma table_pattern_Nil: "table_pattern [] = None"
  by (simp add: table_pattern_def lit_def)

lemma finditer_from_Nil:
  assumes "\<forall>i. table_pattern (drop i s) = None"
  shows "finditer_from k s = []"
  using assms
proof (induction k s rule: finditer_from.induct)
  case (1 k)
  show ?case by simp
next
  case (2 k c cs)
  have "table_pattern (drop i cs) = None" for i using 2(2) [rule_format, of "Suc i"] by simp
  with 2(1) show ?case by simp
next
  case (3 c cs)
  have "table_pattern (drop i cs) = None" for i using 3(3) [rule_format, of "Suc i"] by simp
  moreover from 3(3) [rule_format, of 0] have n: "table_pattern (c # cs) = None" by simp
  ultimately show ?case using 3(1) by simp
qed

lemma finditer_NilD:
  assumes "finditer_from 0 s = []"
  shows "table_pattern (drop i s) = None"
  using assms
proof (induction s arbitrary: i)
  case Nil
  show ?case by (simp add: table_pattern_Nil)
next
  case (Cons c cs)
  from Cons.prems have n: "table_pattern (c # cs) = None" and r: "finditer_from 0 cs = []"
    by (auto split: option.splits)
  show ?case
  proof (cases i)
    case 0
    with n show ?thesis by simp
  next
    case (Suc j)
    with Cons.IH [OF r, of j] show ?thesis by simp
  qed
qed

lemma finditer_Nil_iff: "finditer sql = [] \<longleftrightarrow> (\<forall>i. table_pattern (drop i sql) = None)"
  unfolding finditer_def using finditer_from_Nil finditer_NilD by blast

lemma parse_sql_Nil_iff: "parse_sql sql = [] \<longleftrightarrow> finditer sql = []"
proof
  assume "parse_sql sql = []"
  then have "fst ` set (parse_sql sql) = {}" by simp
  then show "finditer sql = []" unfolding keys_parse_sql by simp
next
  assume "finditer sql = []"
  then show "parse_sql sql = []" by (simp add: parse_sql_def)
qed

text \<open>
  Claim C6: \<open>parse_sql\<close> never raises: it is a total function from texts to
  catalogues, none of its steps can fail. Its result is the empty catalogue
  exactly when the table pattern matches at no position of the text, as on the
  empty text and on \<open>SELECT 1;\<close>.
\<close>

theorem parse_sql_total:
  "(parse_sql sql = [] \<longleftrightarrow> (\<forall>i. table_pattern (drop i sql) = None))
   \<and> parse_sql [] = []
   \<and> parse_sql (lit ''SELECT 1;'') = []"
proof (intro conjI)
  show "parse_sql sql = [] \<longleftrightarrow> (\<forall>i. table_pattern (drop i sql) = None)"
    by (simp only: parse_sql_Nil_iff finditer_Nil_iff)
  show "parse_sql [] = []" by (simp add: parse_sql_def finditer_def)
  show "parse_sql (lit ''SELECT 1;'') = []" by code_simp
qed

lemma literal_ci_Some:
  assumes "literal_ci k s = Some rest"
  shows "\<exists>pre. s = pre @ rest \<and> map lower_cp pre = map lower_cp k"
  using assms
proof (induction k s rule: literal_ci.induct)
  case (1 s)
  then show ?case by simp
next
  case (2 p ps)
  then show ?case by simp
next
  case (3 p ps c cs)
  from 3(2) have eq: "lower_cp c = lower_cp p" and r: "literal_ci ps cs = Some rest"
    by (auto split: if_splits)
  from 3(1) [OF eq r] obtain pre where "cs = pre @ rest" "map lower_cp pre = map lower_cp ps"
    by blast
  with eq have "c # cs = (c # pre) @ rest \<and> map lower_cp (c # pre) = map lower_cp (p # ps)"
    by simp
  then show ?case by blast
qed

lemma skip_keywords_capital:
  "k \<in> set skip_keywords \<Longrightarrow> k \<noteq> [] \<and> (\<forall>u \<in> set k. 0x41 \<le> u \<and> u \<le> 0x5A)"
  by (auto simp: skip_keywords_def lit_def)

lemma same_letter:
  assumes "lower_cp c = lower_cp u" and "0x41 \<le> u \<and> u \<le> 0x5A"
  shows "upper_cp c = [u] \<and> \<not> isspace c \<and> c \<noteq> COMMA"
  using assms by (auto simp: lower_cp_def upper_cp_def isspace_def split: if_splits)

lemma same_word:
  assumes "map lower_cp pre = map lower_cp k" and "\<forall>u \<in> set k. 0x41 \<le> u \<and> u \<le> 0x5A"
  shows "upper pre = k \<and> (\<forall>c \<in> set pre. \<not> isspace c \<and> c \<noteq> COMMA)"
  using assms
proof (induction pre arbitrary: k)
  case Nil
  then show ?case by (simp add: upper_def)
next
  case (Cons c pre)
  then obtain u k' where k: "k = u # k'" by (cases k) auto
  from Cons.prems k have "lower_cp c = lower_cp u" "0x41 \<le> u \<and> u \<le> 0x5A"
    "map lower_cp pre = map lower_cp k'" "\<forall>u \<in> set k'. 0x41 \<le> u \<and> u \<le> 0x5A"
    by auto
  with Cons.IH [of k'] same_letter [of c u] show ?case by (simp add: k upper_def)
qed

lemma rstrip_keeps:
  assumes "pre \<noteq> []" and "\<forall>c \<in> set pre. \<not> P c"
  shows "\<exists>r'. rev (dropWhile P (rev (pre @ r))) = pre @ r'"
proof -
  from assms have "\<not> P (hd (rev pre))" by (simp add: hd_rev)
  with assms(1) have d: "dropWhile P (rev pre) = rev pre" by (cases "rev pre") auto
  have "dropWhile P (rev (pre @ r)) = dropWhile P (rev r) @ rev pre"
    by (auto simp: dropWhile_append d)
  then have "rev (dropWhile P (rev (pre @ r))) = pre @ rev (dropWhile P (rev r))" by simp
  then show ?thesis by blast
qed

lemma keyword_line:
  assumes "k \<in> set skip_keywords" and "literal_ci k (dropWhile isspace raw) = Some rest"
  shows "column_of_line raw = None"
proof -
  from literal_ci_Some [OF assms(2)] obtain pre where
    body: "dropWhile isspace raw = pre @ rest" and same: "map lower_cp pre = map lower_cp k"
    by blast
  from skip_keywords_capital [OF assms(1)] have k: "k \<noteq> []" "\<forall>u \<in> set k. 0x41 \<le> u \<and> u \<le> 0x5A"
    by simp_all
  from same_word [OF same k(2)] have up: "upper pre = k"
    and sp: "\<forall>c \<in> set pre. \<not> isspace c" and co: "\<forall>c \<in> set pre. \<not> c \<in> set [COMMA]"
    by simp_all
  from same k(1) have ne: "pre \<noteq> []" by auto
  from rstrip_keeps [OF ne sp] obtain r1 where "strip raw = pre @ r1"
    unfolding strip_def body by blast
  moreover from rstrip_keeps [OF ne co] obtain r2 where
    "rstrip_chars [COMMA] (pre @ r1) = pre @ r2"
    unfolding rstrip_chars_def by blast
  ultimately have line: "rstrip_chars [COMMA] (strip raw) = pre @ r2" by simp
  have "upper (pre @ r2) = k @ upper r2" by (simp add: upper_def up [unfolded upper_def])
  then have "startswith (upper (pre @ r2)) k" by (simp add: startswith_def)
  with assms(1) show ?thesis unfolding column_of_line_def Let_def line by auto
qed


text \<open>
  Claim C10, as stated: any column whose name begins with one of the words
  CONSTRAINT, PRIMARY, FOREIGN, UNIQUE, CHECK, WITH and ALTER is left out of the
  column list. A column whose name is written in quotes is kept: its line
  begins with the quote, not with the word.
\<close>

theorem keyword_named_column_counterexample:
  "parse_sql (lit ''CREATE TABLE t ('' @ [LF, QUOT] @ lit ''check_date'' @ [QUOT] @ lit '' date''
       @ [LF] @ lit '');'')
     = [(lit ''t'', [lit ''check_date''])]"
  by code_simp

text \<open>
  Claim C10, amended: a line of the column block that begins, after leading
  white space and in any letter case, with one of the seven words adds no
  column. So a column written without quotes at the start of its line is left
  out when its name begins with such a word, as \<open>check_date\<close>, \<open>unique_id\<close>
  and \<open>with_flag\<close> are.
\<close>

theorem keyword_named_column_omitted:
  "(k \<in> set skip_keywords \<longrightarrow> literal_ci k (dropWhile isspace raw) = Some rest
      \<longrightarrow> column_of_line raw = None)
   \<and> parse_sql (lit ''CREATE TABLE t ('' @ [LF] @ lit ''id integer,'' @ [LF]
        @ lit ''check_date date,'' @ [LF] @ lit ''unique_id integer,'' @ [LF]
        @ lit ''with_flag boolean'' @ [LF] @ lit '');'')
     = [(lit ''t'', [lit ''id''])]"
proof (intro conjI impI)
  assume "k \<in> set skip_keywords" and "literal_ci k (dropWhile isspace raw) = Some rest"
  then show "column_of_line raw = None" by (rule keyword_line)
next
  show "parse_sql (lit ''CREATE TABLE t ('' @ [LF] @ lit ''id integer,'' @ [LF]
        @ lit ''check_date date,'' @ [LF] @ lit ''unique_id integer,'' @ [LF]
        @ lit ''with_flag boolean'' @ [LF] @ lit '');'')
     = [(lit ''t'', [lit ''id''])]"
    by code_simp
qed

text \<open>
  The theorem at work, on the line of the column \<open>check_date\<close>.
\<close>

theorem keyword_named_column_omitted_witness:
  "lit ''CHECK'' \<in> set skip_keywords
   \<and> literal_ci (lit ''CHECK'') (dropWhile isspace (lit ''  check_date date,'')) = Some (lit ''_date date,'')
   \<and> column_of_line (lit ''  check_date date,'') = None"
proof -
  have k: "lit ''CHECK'' \<in> set skip_keywords" by (simp add: skip_keywords_def)
  have l: "literal_ci (lit ''CHECK'') (dropWhile isspace (lit ''  check_date date,''))
             = Some (lit ''_date date,'')"
    by code_simp
  from keyword_named_column_omitted [THEN conjunct1, THEN mp, THEN mp, OF k l] k l
  show ?thesis by simp
qed

section \<open>Ties between layer fields\<close>

lemma update_absent: "k \<notin> fst ` set al \<Longrightarrow> AList.update k v al = al @ [(k, v)]"
  by (induction al) auto

lemma find_append:
  "find P (xs @ ys) = (case find P xs of Some x \<Rightarrow> Some x | None \<Rightarrow> find P ys)"
  by (induction xs) auto

lemma find_filter_hd: "find P xs = (case filter P xs of [] \<Rightarrow> None | x # _ \<Rightarrow> Some x)"
  by (induction xs) auto

lemma find_map: "find P (map g xs) = map_option g (find (\<lambda>x. P (g x)) xs)"
  by (induction xs) auto

lemma find_stronger:
  "find P xs = Some h \<Longrightarrow> Q h \<Longrightarrow> find (\<lambda>e. P e \<and> Q e) xs = Some h"
  by (induction xs) (auto split: if_splits)

lemma find_same:
  "find P xs = Some a \<Longrightarrow> find Q xs = Some b \<Longrightarrow> Q a \<Longrightarrow> P b \<Longrightarrow> a = b"
  by (induction xs) (auto split: if_splits)

lemma find_sort_key:
  assumes "\<And>e. S e \<Longrightarrow> f e = k"
  shows "find S (sort_key f xs) = find S xs"
proof -
  have "filter S (sort_key f xs) = filter S (filter (\<lambda>y. f y = k) (sort_key f xs))"
    using assms by (auto intro: filter_cong)
  also have "\<dots> = filter S (filter (\<lambda>y. f y = k) xs)"
    by (simp only: sort_key_stable)
  also have "\<dots> = filter S xs"
    using assms by (auto intro: filter_cong)
  finally show ?thesis by (simp add: find_filter_hd)
qed

lemma find_sorted_least:
  "sorted (map f xs) \<Longrightarrow> find P xs = Some h \<Longrightarrow> e \<in> set xs \<Longrightarrow> P e \<Longrightarrow> f h \<le> f e"
  by (induction xs) (auto split: if_splits)


lemma record_match_consistent:
  assumes "\<forall>(n, s) \<in> set cm. s = \<sigma> n"
  shows "record_match threshold cm (n, \<sigma> n)
           = (if threshold \<le> int (\<sigma> n) \<and> n \<notin> fst ` set cm then cm @ [(n, \<sigma> n)] else cm)"
proof (cases "map_of cm n")
  case None
  then have "n \<notin> fst ` set cm" by (simp add: map_of_eq_None_iff)
  with None show ?thesis by (simp add: record_match_def update_absent)
next
  case (Some old)
  then have "(n, old) \<in> set cm" by (rule map_of_SomeD)
  with assms have "old = \<sigma> n" and "n \<in> fst ` set cm" by force+
  with Some show ?thesis by (simp add: record_match_def)
qed

lemma find_foldl_record_match:
  assumes "\<forall>(n, s) \<in> set ps. s = \<sigma> n" and "\<forall>(n, s) \<in> set cm. s = \<sigma> n"
    and R: "\<And>e. R e \<Longrightarrow> threshold \<le> int (snd e)"
  shows "find R (foldl (record_match threshold) cm ps)
           = (case find R cm of Some e \<Rightarrow> Some e | None \<Rightarrow> find R ps)"
  using assms(1,2)
proof (induction ps arbitrary: cm)
  case Nil
  show ?case by (simp split: option.splits)
next
  case (Cons p ps)
  obtain n where p: "p = (n, \<sigma> n)" using Cons.prems(1) by (cases p) auto
  let ?cm = "record_match threshold cm p"
  have rm: "?cm = (if threshold \<le> int (\<sigma> n) \<and> n \<notin> fst ` set cm then cm @ [p] else cm)"
    unfolding p using Cons.prems(2) by (rule record_match_consistent)
  then have "\<forall>(n, s) \<in> set ?cm. s = \<sigma> n" using Cons.prems(2) p by auto
  with Cons.IH [of ?cm] Cons.prems(1)
  have IH: "find R (foldl (record_match threshold) ?cm ps)
      = (case find R ?cm of Some e \<Rightarrow> Some e | None \<Rightarrow> find R ps)"
    by simp
  show ?case
  proof (cases "threshold \<le> int (\<sigma> n) \<and> n \<notin> fst ` set cm")
    case True
    with rm have "?cm = cm @ [p]" by simp
    with IH show ?thesis by (simp add: find_append split: option.splits)
  next
    case False
    with rm have same: "?cm = cm" by simp
    show ?thesis
    proof (cases "R p")
      case no: False
      with IH same show ?thesis by (simp split: option.splits)
    next
      case yes: True
      with R [of p] have "threshold \<le> int (\<sigma> n)" by (simp add: p)
      with False have "n \<in> fst ` set cm" by simp
      then obtain s where "(n, s) \<in> set cm" by auto
      with Cons.prems(2) have "p \<in> set cm" unfolding p by auto
      then have "\<exists>e. find R cm = Some e" using yes by (rule find_exists)
      then obtain e where "find R cm = Some e" ..
      with IH same show ?thesis by simp
    qed
  qed
qed

lemma process_extract_all:
  "process_extract scorer c nf (length nf)
     = sorted_by_score (map (\<lambda>n. (n, scorer c n)) nf)"
  by (simp add: process_extract_def sorted_by_score_def)

lemma single_candidate_matches:
  "candidate_matches_of scorer threshold nf [c]
     = foldl (record_match threshold) [] (sorted_by_score (map (\<lambda>n. (n, scorer c n)) nf))"
  by (simp add: candidate_matches_of_def process_extract_all)

lemma single_candidate_scores:
  assumes "(n, s) \<in> set (candidate_matches_of scorer threshold nf [c])"
  shows "s = scorer c n"
proof -
  have "\<forall>(n, s) \<in> set (candidate_matches_of scorer threshold nf [c]). s = scorer c n"
    unfolding single_candidate_matches
  proof (rule foldl_invariant, goal_cases)
    case 1
    show ?case by simp
  next
    case (2 cm p)
    from 2(2) obtain m where p: "p = (m, scorer c m)"
      by (auto simp: sorted_by_score_def)
    from 2(1) show ?case unfolding p
      by (simp only: record_match_consistent [where \<sigma> = "scorer c"]) auto
  qed
  with assms show ?thesis by blast
qed


lemma best_match_single:
  assumes best: "best_match_of used (sorted_by_score (candidate_matches_of scorer threshold nf [c]))
                   = Some bm"
  shows "find (\<lambda>n. n \<notin> used \<and> scorer c n = scorer c bm) nf = Some bm"
    and "\<And>n. n \<in> set nf \<Longrightarrow> n \<notin> used \<Longrightarrow> threshold \<le> int (scorer c n)
           \<Longrightarrow> scorer c n \<le> scorer c bm"
proof -
  define f :: "str \<times> nat \<Rightarrow> int" where "f = (\<lambda>(match, score). - int score)"
  define cm where "cm = candidate_matches_of scorer threshold nf [c]"
  define U :: "str \<times> nat \<Rightarrow> bool" where "U = (\<lambda>(match, score). match \<notin> used)"
  from best obtain h where h: "find U (sort_key f cm) = Some h" and bm: "bm = fst h"
    by (auto simp: best_match_of_def sorted_by_score_def f_def cm_def U_def)
  from find_SomeD [OF h] have hin: "h \<in> set cm" and Uh: "U h" by simp_all
  from hin have sh: "snd h = scorer c bm"
    using single_candidate_scores [of "fst h" "snd h" scorer threshold nf c]
    by (simp add: cm_def bm)
  from hin have th: "threshold \<le> int (snd h)"
    using scores_candidate_matches [of scorer threshold nf "[c]"] by (auto simp: cm_def)
  define S where "S = (\<lambda>e. U e \<and> snd e = snd h)"
  have Sf: "f e = - int (snd h)" if "S e" for e using that by (auto simp: S_def f_def split: prod.splits)
  have St: "threshold \<le> int (snd e)" if "S e" for e using that th by (simp add: S_def)
  from find_stronger [OF h, of "\<lambda>e. snd e = snd h"] have "find S (sort_key f cm) = Some h"
    by (simp add: S_def)
  then have "find S cm = Some h" by (simp only: find_sort_key [of S f, OF Sf])
  moreover have "find S cm = find S (sort_key f (map (\<lambda>n. (n, scorer c n)) nf))"
    unfolding cm_def single_candidate_matches sorted_by_score_def f_def [symmetric]
    by (subst find_foldl_record_match [where \<sigma> = "scorer c" and R = S])
      (auto simp: St)
  ultimately have "find S (map (\<lambda>n. (n, scorer c n)) nf) = Some h"
    by (simp only: find_sort_key [of S f, OF Sf])
  then obtain n where n: "find (\<lambda>n. S (n, scorer c n)) nf = Some n" and hn: "h = (n, scorer c n)"
    by (auto simp: find_map)
  from hn bm have "n = bm" by simp
  with n sh show "find (\<lambda>n. n \<notin> used \<and> scorer c n = scorer c bm) nf = Some bm"
    by (simp add: S_def U_def)
  fix n assume n: "n \<in> set nf" "n \<notin> used" "threshold \<le> int (scorer c n)"
  then have "n \<in> fst ` set cm" unfolding cm_def keys_candidate_matches by simp
  then obtain s where e: "(n, s) \<in> set cm" by auto
  then have s: "s = scorer c n" unfolding cm_def by (rule single_candidate_scores)
  have "sorted (map f (sort_key f cm))" by (rule sorted_sort_key)
  from find_sorted_least [OF this h, of "(n, s)"] e n(2) have "f h \<le> f (n, s)"
    by (simp add: U_def)
  then show "scorer c n \<le> scorer c bm" by (simp add: f_def s sh [symmetric] split: prod.splits)
qed


lemma lower_nome: "lower (lit ''nome'') = lit ''nome''"
  by (simp add: lower_def lower_cp_def lit_def)

text \<open>
  Claim C3, as stated: among qualifying layer fields of equal score, the one
  that comes first in the layer field list is picked, in every call. With the
  synonym table of the module, the attribute \<open>nome\<close> has the candidates
  \<open>nome\<close> and \<open>name\<close>. For the layer fields \<open>name\<close>, \<open>nome\<close>, in this order,
  and a scorer that gives 100 to equal strings and 75 to different ones (the
  scores of \<open>fuzz.partial_ratio\<close> on these two names), both fields end with the
  score 100, and the later field \<open>nome\<close> is picked: it entered the dictionary
  of matches first, with the first candidate.
\<close>

theorem tie_break_counterexample:
  "sorted_matches_of (\<lambda>c f. if c = f then 100 else 75) 80 SYNONYMS_DICT
       [lit ''name'', lit ''nome''] (lit ''nome'')
     = [(lit ''nome'', 100), (lit ''name'', 100)]
   \<and> auto_map_attributes_with_synonyms (Some (\<lambda>c f. if c = f then 100 else 75))
       [lit ''nome''] [lit ''name'', lit ''nome''] SYNONYMS_DICT 80
     = Inr [(lit ''nome'', Some (lit ''nome''))]"
  by (simp add: auto_map_defs SYNONYMS_DICT_def lower_nome normalize_str_nome normalize_str_name
      lit_eq_iff)

text \<open>
  Claim C3, amended: for an attribute without an entry in the synonym table,
  so with its normalised name as the only candidate, and at every state of the
  loop: when some layer field is free and reaches the threshold, the attribute
  gets a field; that field scores at least as high as every free field that
  reaches the threshold, and it is the first field of the layer field list
  among the free fields with its score.
\<close>

theorem tie_break_without_synonyms:
  assumes "synonyms_dict (lower attr) = None"
    and "g \<in> set layer_fields"
    and "normalize_str g \<notin> used_fields st"
    and "threshold \<le> int (scorer (normalize_str attr) (normalize_str g))"
  shows "\<exists>original.
      map_of (mapping (map_attribute scorer threshold synonyms_dict
                (map (\<lambda>field. (field, normalize_str field)) layer_fields) st attr)) attr
        = Some (Some original)
      \<and> scorer (normalize_str attr) (normalize_str g)
          \<le> scorer (normalize_str attr) (normalize_str original)
      \<and> find (\<lambda>field. normalize_str field \<notin> used_fields st
                 \<and> scorer (normalize_str attr) (normalize_str field)
                     = scorer (normalize_str attr) (normalize_str original))
            layer_fields
          = Some original"
proof -
  define c where "c = normalize_str attr"
  define nlf where "nlf = map (\<lambda>field. (field, normalize_str field)) layer_fields"
  have nf: "map snd nlf = map normalize_str layer_fields" by (simp add: nlf_def comp_def)
  have sm: "sorted_matches_of scorer threshold synonyms_dict (map snd nlf) attr
      = sorted_by_score (candidate_matches_of scorer threshold (map snd nlf) [c])"
    using assms(1) by (simp add: sorted_matches_of_def candidates_of_def c_def)
  have gk: "normalize_str g
      \<in> fst ` set (sorted_matches_of scorer threshold synonyms_dict (map snd nlf) attr)"
    unfolding keys_sorted_matches using assms(1,2,4) by (auto simp: nf candidates_of_def)
  show ?thesis
  proof (cases rule: map_attribute_cases [where st = st and attr = attr and scorer = scorer
        and threshold = threshold and synonyms_dict = synonyms_dict and nlf = nlf])
    case unmapped
    with gk assms(3) show ?thesis by blast
  next
    case (mapped original bm)
    note best = mapped(2) [unfolded sm]
    from find_normalized [OF mapped(3) [unfolded nlf_def]]
    have o: "original \<in> set layer_fields" "normalize_str original = bm" by simp_all
    from mapped(3) have fo: "find (\<lambda>field. normalize_str field = bm) layer_fields = Some original"
      by (auto simp: nlf_def find_map case_prod_unfold)
    from best_match_single(1) [OF best]
    have "find (\<lambda>n. n \<notin> used_fields st \<and> scorer c n = scorer c bm)
            (map normalize_str layer_fields) = Some bm"
      by (simp add: nf)
    then obtain f0 where
      f0: "find (\<lambda>field. normalize_str field \<notin> used_fields st
                 \<and> scorer c (normalize_str field) = scorer c bm) layer_fields = Some f0"
      and "normalize_str f0 = bm"
      by (auto simp: find_map)
    from best_match_of_Some [OF mapped(2)] have "bm \<notin> used_fields st" by simp
    with find_same [OF fo f0] o(2) \<open>normalize_str f0 = bm\<close> have "original = f0" by simp
    with f0 have tie: "find (\<lambda>field. normalize_str field \<notin> used_fields st
                 \<and> scorer c (normalize_str field) = scorer c (normalize_str original))
            layer_fields = Some original"
      unfolding o(2) by simp
    from best_match_single(2) [OF best, of "normalize_str g"] assms(2,3,4)
    have "scorer c (normalize_str g) \<le> scorer c (normalize_str original)"
      by (simp add: nf o(2) c_def)
    moreover have "map_of (mapping (map_attribute scorer threshold synonyms_dict nlf st attr)) attr
        = Some (Some original)"
      unfolding mapped(1) by (simp add: update_conv')
    ultimately show ?thesis using tie unfolding c_def nlf_def by blast
  qed
qed

text \<open>
  The theorem at work: two free fields with the score 100, the first one is
  picked.
\<close>

theorem tie_break_without_synonyms_witness:
  "map_of (mapping (map_attribute (\<lambda>c f. 100) 80 Map.empty
             (map (\<lambda>field. (field, normalize_str field)) [lit ''name'', lit ''nome''])
             \<lparr>mapping = [], used_fields = {}\<rparr> (lit ''nome''))) (lit ''nome'')
     = Some (Some (lit ''name''))"
proof -
  have 1: "Map.empty (lower (lit ''nome'')) = None" by simp
  have 2: "lit ''nome'' \<in> set [lit ''name'', lit ''nome'']" by simp
  have 3: "normalize_str (lit ''nome'') \<notin> used_fields \<lparr>mapping = [], used_fields = {}\<rparr>" by simp
  have 4: "80 \<le> int ((\<lambda>c f. 100) (normalize_str (lit ''nome'')) (normalize_str (lit ''nome'')))"
    by simp
  from tie_break_without_synonyms [of Map.empty "lit ''nome''" "lit ''nome''"
      "[lit ''name'', lit ''nome'']" "\<lparr>mapping = [], used_fields = {}\<rparr>" 80 "\<lambda>c f. 100",
      OF 1 2 3 4]
  show ?thesis by simp
qed

end
